theory Spec2Isabelle
  imports Main
begin

section \<open>The executor-rescheduling await adapter of folly/experimental/coro/AwaitWrapper.h\<close>

text \<open>
  The header wraps an awaiter (an object with \<open>await_ready\<close>, \<open>await_suspend\<close> and
  \<open>await_resume\<close>) in an \<open>AwaitWrapper\<close>. Without an executor the wrapper delegates; with an
  executor it owns a small coroutine frame (the trampoline, created by \<open>awaitWrapper()\<close>) whose
  handle is given to the wrapped awaiter in place of the caller's continuation, and whose final
  awaiter hands the caller's continuation to \<open>Executor::add\<close>.

  The model is a shallow embedding with explicit state: a world holding the live trampoline
  frames, the executors, the awaiter objects that wrappers refer to by reference, and a trace of
  the two kinds of action the claims speak about (a coroutine handle being resumed, an
  \<open>Executor::add\<close> being called). Exceptions, \<open>std::terminate\<close>, \<open>LOG(FATAL)\<close> and the
  undefined behaviour of the coroutine primitives are values of a result type; what an
  implementation does when a frame is resumed with undefined behaviour is a parameter of the
  world, and an instantiation that is ill-formed is \<open>None\<close>.
\<close>

subsection \<open>Handles, outcomes\<close>

type_synonym exn = string
type_synonym addr = nat

text \<open>\<open>std::experimental::coroutine_handle<>\<close>: the null handle, the handle of some
  coroutine of the caller, or the handle of a trampoline frame (identified by the address of its
  promise, as \<open>from_promise\<close> does).\<close>

datatype handle = NullHandle | Caller nat | Trampoline addr

text \<open>How a process can stop: \<open>std::terminate\<close> (an exception leaving a \<open>noexcept\<close>
  function), \<open>LOG(FATAL)\<close> with its message and the exception text, undefined behaviour of a
  coroutine primitive or of a pointer, and reading an empty \<open>folly::Optional\<close> (whose reaction
  is fixed by folly/Optional.h, which is not among the sources).\<close>

datatype abort = StdTerminate exn | LogFatal string exn | Undefined | EmptyOptional

datatype 'x result = Ok 'x | Throw exn | Stop abort

text \<open>An exception that leaves a function declared \<open>noexcept\<close> calls \<open>std::terminate\<close>.\<close>

fun noexcept :: "'x result \<Rightarrow> 'x result" where
  "noexcept (Throw e) = Stop (StdTerminate e)"
| "noexcept r = r"

subsection \<open>The world: frames, executors, referenced awaiters, trace\<close>

datatype suspend_point = InitialSuspend | FinalSuspend

text \<open>\<open>promise_type\<close>: \<open>Executor* executor_\<close>, here \<open>m_executor\<close> (\<open>None\<close> is the null pointer; the field is
  not initialised by the promise's constructor and is written by \<open>create\<close> before the frame is
  visible to anyone) and \<open>coroutine_handle<> awaiter_\<close>, here \<open>m_awaiter\<close> (default-constructed: null).\<close>

record promise_type =
  m_executor :: "addr option"
  m_awaiter :: handle

record frame =
  promise :: promise_type
  at :: suspend_point

text \<open>Modelled from the spec: folly/Executor.h is not among the sources. The executor
  contract is \<open>add(continuation_handle) -> void\<close>, which may throw; an executor is modelled by
  the exception, if any, that its \<open>add\<close> throws for a handle.\<close>

type_synonym executor = "handle \<Rightarrow> exn option"

text \<open>The trace records every resumption of a coroutine handle and every call of
  \<open>Executor::add\<close> (by which frame, on which executor, with which handle), in order.\<close>

datatype action = Resumed handle | Added addr addr handle

text \<open>C++ does not define what happens when a coroutine that is suspended at its final
  suspend point is resumed, or when \<open>add\<close> is called through a null or dangling
  \<open>Executor*\<close>, and the header guards against neither. The model does not choose an outcome:
  the world carries, as \<open>undefined_adds f fr\<close>, the calls of \<open>Executor::add\<close> (executor and
  handle) that the implementation makes when the frame at \<open>f\<close>, with contents \<open>fr\<close>, is
  resumed in such a way. It may be none (the process crashes at once), the call of the final
  awaiter once more, or any other list.\<close>

record 'a world =
  frames :: "addr \<rightharpoonup> frame"
  fresh :: addr
  executors :: "addr \<rightharpoonup> executor"
  objs :: "addr \<rightharpoonup> 'a"
  trace :: "action list"
  undefined_adds :: "addr \<Rightarrow> frame \<Rightarrow> (addr \<times> handle) list"

text \<open>A resumption of frame \<open>f\<close> with undefined behaviour: the implementation's calls of
  \<open>add\<close> are recorded, and nothing is said about the process afterwards.\<close>

definition undefined_step :: "addr \<Rightarrow> frame \<Rightarrow> 'a world \<Rightarrow> unit result \<times> 'a world" where
  "undefined_step f fr s =
     (Stop Undefined,
      s\<lparr>trace := trace s @ map (\<lambda>(e, h). Added f e h) (undefined_adds s f fr)\<rparr>)"

definition executor_add :: "addr \<Rightarrow> addr \<Rightarrow> handle \<Rightarrow> 'a world \<Rightarrow> unit result \<times> 'a world" where
  "executor_add f ex h s =
     (case executors s ex of
        None \<Rightarrow> (Stop Undefined, s)
      | Some E \<Rightarrow>
          (case E h of
             Some e \<Rightarrow> (Throw e, s\<lparr>trace := trace s @ [Added f ex h]\<rparr>)
           | None \<Rightarrow> (Ok (), s\<lparr>trace := trace s @ [Added f ex h]\<rparr>)))"

subsection \<open>The trampoline coroutine\<close>

text \<open>\<open>unhandled_exception\<close>: \<open>LOG(FATAL)\<close> with the message and the exception.\<close>

definition unhandled_exception :: "exn \<Rightarrow> abort" where
  "unhandled_exception e = LogFatal ''Failed to schedule a task to awake a coroutine: '' e"

text \<open>The body of \<open>awaitWrapper()\<close> is \<open>co_return;\<close>, which calls \<open>return_void()\<close>, whose
  body is empty.\<close>

definition return_void :: "unit result" where
  "return_void = Ok ()"

definition awaitWrapper_body :: "unit result" where
  "awaitWrapper_body = return_void"

text \<open>\<open>FinalAwaiter::await_suspend(h)\<close>, declared \<open>noexcept\<close>:
  \<open>auto& p = h.promise(); p.executor_->add(p.awaiter_);\<close>
  The call through a null \<open>executor_\<close>, or through one that points to no executor, is
  undefined.\<close>

definition FinalAwaiter_await_suspend :: "addr \<Rightarrow> 'a world \<Rightarrow> unit result \<times> 'a world" where
  "FinalAwaiter_await_suspend f s =
     (case frames s f of
        None \<Rightarrow> (Stop Undefined, s)
      | Some fr \<Rightarrow>
          (case m_executor (promise fr) of
             None \<Rightarrow> undefined_step f fr s
           | Some ex \<Rightarrow>
               (case executors s ex of
                  None \<Rightarrow> undefined_step f fr s
                | Some E \<Rightarrow>
                    (case executor_add f ex (m_awaiter (promise fr)) s of
                       (r, s') \<Rightarrow> (noexcept r, s')))))"

text \<open>Resuming the trampoline's handle. A frame that is destroyed must not be resumed, and
  neither must one that is suspended at its final suspend point: the header has no guard for
  this, \<open>FinalAwaiter\<close> leaves the coroutine suspended there for good, and what a second
  resumption does is the implementation's \<open>undefined_step\<close>. From the initial suspend point
  the coroutine runs its body inside the \<open>try\<close> block that calls \<open>unhandled_exception\<close>,
  then evaluates \<open>co_await final_suspend()\<close>: \<open>FinalAwaiter::await_ready\<close> is false, so
  the coroutine is suspended at its final suspend point and \<open>FinalAwaiter::await_suspend\<close>
  runs.\<close>

definition resume_trampoline :: "addr \<Rightarrow> 'a world \<Rightarrow> unit result \<times> 'a world" where
  "resume_trampoline f s =
     (case frames s f of
        None \<Rightarrow> (Stop Undefined, s)
      | Some fr \<Rightarrow>
          (case at fr of
             FinalSuspend \<Rightarrow> undefined_step f fr s
           | InitialSuspend \<Rightarrow>
               (case awaitWrapper_body of
                  Throw e \<Rightarrow> (Stop (unhandled_exception e), s)
                | Stop a \<Rightarrow> (Stop a, s)
                | Ok _ \<Rightarrow>
                    FinalAwaiter_await_suspend f
                      (s\<lparr>frames := (frames s)(f \<mapsto> fr\<lparr>at := FinalSuspend\<rparr>)\<rparr>))))"

text \<open>\<open>coroutine_handle::resume()\<close>. Resuming a caller's coroutine runs code outside this
  header; the model only records it.\<close>

fun resume :: "handle \<Rightarrow> 'a world \<Rightarrow> unit result \<times> 'a world" where
  "resume NullHandle s = (Stop Undefined, s\<lparr>trace := trace s @ [Resumed NullHandle]\<rparr>)"
| "resume (Caller n) s = (Ok (), s\<lparr>trace := trace s @ [Resumed (Caller n)]\<rparr>)"
| "resume (Trampoline f) s =
     resume_trampoline f (s\<lparr>trace := trace s @ [Resumed (Trampoline f)]\<rparr>)"

text \<open>A sequence of resumptions; the first that stops the process ends it.\<close>

fun resume_all :: "handle list \<Rightarrow> 'a world \<Rightarrow> unit result \<times> 'a world" where
  "resume_all [] s = (Ok (), s)"
| "resume_all (h # hs) s =
     (case resume h s of
        (Stop a, s') \<Rightarrow> (Stop a, s')
      | (_, s') \<Rightarrow> resume_all hs s')"

subsection \<open>Awaiters\<close>

text \<open>The awaiter is code outside the header. Its class is given by its three member
  functions on the awaiter's own state \<open>'a\<close>; \<open>await_suspend\<close> also reports the handles it
  resumes before it returns (an operation that completes inline resumes the handle it was
  given).\<close>

record ('a, 'r, 'v) awaiter_class =
  ready_m :: "'a \<Rightarrow> bool result \<times> 'a"
  suspend_m :: "handle \<Rightarrow> 'a \<Rightarrow> 'r result \<times> handle list \<times> 'a"
  resume_m :: "'a \<Rightarrow> 'v result \<times> 'a"

text \<open>Calling \<open>a.await_suspend(h)\<close> on an awaiter object in a world.\<close>

definition invoke_suspend ::
  "('a, 'r, 'v) awaiter_class \<Rightarrow> handle \<Rightarrow> 'a \<Rightarrow> 'a world \<Rightarrow> 'r result \<times> 'a \<times> 'a world" where
  "invoke_suspend cls h a s =
     (case suspend_m cls h a of
        (r, hs, a') \<Rightarrow>
          (case resume_all hs s of
             (Stop x, s') \<Rightarrow> (Stop x, a', s')
           | (_, s') \<Rightarrow> (r, a', s')))"

text \<open>The template argument of \<open>AwaitWrapper\<close>: the awaiter type itself, held by value, or
  \<open>std::reference_wrapper\<close> of it, holding the address of an object owned by someone else.\<close>

datatype 'a wrapped = ByValue 'a | ByRef addr

text \<open>\<open>detail::getRef\<close>: the overload for any \<open>T&&\<close> returns its argument, the overload for
  \<open>std::reference_wrapper<T>\<close> returns \<open>t.get()\<close>. The result is a reference: \<open>getRef\<close>
  reads the object referred to and \<open>setRef\<close> writes it after a member function has run on it.
  A reference to an object that no longer exists is \<open>None\<close>.\<close>

fun getRef :: "'a wrapped \<Rightarrow> 'a world \<Rightarrow> 'a option" where
  "getRef (ByValue a) s = Some a"
| "getRef (ByRef p) s = objs s p"

fun setRef :: "'a wrapped \<Rightarrow> 'a \<Rightarrow> 'a world \<Rightarrow> 'a wrapped \<times> 'a world" where
  "setRef (ByValue _) a' s = (ByValue a', s)"
| "setRef (ByRef p) a' s = (ByRef p, s\<lparr>objs := (objs s)(p \<mapsto> a')\<rparr>)"

subsection \<open>The adapter\<close>

text \<open>\<open>promise_type* promise_{nullptr}\<close> (here \<open>m_promise\<close>) and
  \<open>Optional<Awaitable> awaitable_\<close> (here \<open>m_awaitable\<close>).\<close>

record 'a AwaitWrapper =
  m_promise :: "addr option"
  m_awaitable :: "'a wrapped option"

text \<open>The two private constructors.\<close>

definition AwaitWrapper_of_awaitable :: "'a wrapped \<Rightarrow> 'a AwaitWrapper" where
  "AwaitWrapper_of_awaitable awaitable = \<lparr>m_promise = None, m_awaitable = Some awaitable\<rparr>"

definition AwaitWrapper_of_promise :: "addr \<Rightarrow> 'a AwaitWrapper" where
  "AwaitWrapper_of_promise p = \<lparr>m_promise = Some p, m_awaitable = None\<rparr>"

definition get_return_object :: "addr \<Rightarrow> 'a AwaitWrapper" where
  "get_return_object p = AwaitWrapper_of_promise p"

text \<open>Calling the coroutine \<open>awaitWrapper()\<close>: a frame is allocated, the promise is
  constructed, \<open>get_return_object\<close> gives the wrapper, and \<open>initial_suspend\<close> returns
  \<open>suspend_always\<close>, so the body does not start.\<close>

definition awaitWrapper :: "'a world \<Rightarrow> 'a AwaitWrapper \<times> 'a world" where
  "awaitWrapper s =
     (let f = fresh s;
          fr = \<lparr>promise = \<lparr>m_executor = None, m_awaiter = NullHandle\<rparr>, at = InitialSuspend\<rparr>
      in (get_return_object f, s\<lparr>frames := (frames s)(f \<mapsto> fr), fresh := Suc f\<rparr>))"

text \<open>\<open>create(Awaitable&&)\<close> and \<open>create(Awaitable&&, Executor*)\<close>. The second
  writes \<open>executor_\<close> through \<open>ret.promise_\<close>; the two \<open>None\<close> branches (a null
  \<open>promise_\<close>, a frame that is gone) are there for totality and are never taken, since
  \<open>awaitWrapper\<close> has just set both. \<open>return ret\<close> yields the wrapper as it is (by
  elision or by the move constructor, with the same result).\<close>

definition create :: "'a wrapped \<Rightarrow> 'a AwaitWrapper" where
  "create awaitable = AwaitWrapper_of_awaitable awaitable"

definition create_with :: "'a wrapped \<Rightarrow> addr option \<Rightarrow> 'a world \<Rightarrow> 'a AwaitWrapper \<times> 'a world" where
  "create_with awaitable executor s =
     (case awaitWrapper s of
        (ret, s1) \<Rightarrow>
          (let ret1 = ret\<lparr>m_awaitable := Some awaitable\<rparr> in
           case m_promise ret1 of
             None \<Rightarrow> (ret1, s1)
           | Some p \<Rightarrow>
               (case frames s1 p of
                  None \<Rightarrow> (ret1, s1)
                | Some fr \<Rightarrow>
                    (ret1, s1\<lparr>frames := (frames s1)
                                (p \<mapsto> fr\<lparr>promise := (promise fr)\<lparr>m_executor := executor\<rparr>\<rparr>)\<rparr>))))"

text \<open>\<open>await_ready\<close>, \<open>await_suspend\<close>, \<open>await_resume\<close>. Each returns the result, the
  wrapper (whose by-value awaiter the call may have changed) and the world.\<close>

definition await_ready ::
  "('a, 'r, 'v) awaiter_class \<Rightarrow> 'a AwaitWrapper \<Rightarrow> 'a world
     \<Rightarrow> bool result \<times> 'a AwaitWrapper \<times> 'a world" where
  "await_ready cls w s =
     (case m_awaitable w of
        None \<Rightarrow> (Stop EmptyOptional, w, s)
      | Some st \<Rightarrow>
          (case getRef st s of
             None \<Rightarrow> (Stop Undefined, w, s)
           | Some a \<Rightarrow>
               (case ready_m cls a of
                  (r, a') \<Rightarrow>
                    (case setRef st a' s of
                       (st', s') \<Rightarrow> (r, w\<lparr>m_awaitable := Some st'\<rparr>, s')))))"

text \<open>The call \<open>getRef(*awaitable_).await_suspend(h)\<close> shared by the two branches.\<close>

definition inner_await_suspend ::
  "('a, 'r, 'v) awaiter_class \<Rightarrow> 'a AwaitWrapper \<Rightarrow> handle \<Rightarrow> 'a world
     \<Rightarrow> 'r result \<times> 'a AwaitWrapper \<times> 'a world" where
  "inner_await_suspend cls w h s =
     (case m_awaitable w of
        None \<Rightarrow> (Stop EmptyOptional, w, s)
      | Some st \<Rightarrow>
          (case getRef st s of
             None \<Rightarrow> (Stop Undefined, w, s)
           | Some a \<Rightarrow>
               (case invoke_suspend cls h a s of
                  (r, a', s1) \<Rightarrow>
                    (case setRef st a' s1 of
                       (st', s') \<Rightarrow> (r, w\<lparr>m_awaitable := Some st'\<rparr>, s')))))"

definition await_suspend ::
  "('a, 'r, 'v) awaiter_class \<Rightarrow> 'a AwaitWrapper \<Rightarrow> handle \<Rightarrow> 'a world
     \<Rightarrow> 'r result \<times> 'a AwaitWrapper \<times> 'a world" where
  "await_suspend cls w awaiter s =
     (case m_promise w of
        Some p \<Rightarrow>
          (case frames s p of
             None \<Rightarrow> (Stop Undefined, w, s)
           | Some fr \<Rightarrow>
               inner_await_suspend cls w (Trampoline p)
                 (s\<lparr>frames := (frames s)(p \<mapsto> fr\<lparr>promise := (promise fr)\<lparr>m_awaiter := awaiter\<rparr>\<rparr>)\<rparr>))
      | None \<Rightarrow> inner_await_suspend cls w awaiter s)"

definition await_resume ::
  "('a, 'r, 'v) awaiter_class \<Rightarrow> 'a AwaitWrapper \<Rightarrow> 'a world
     \<Rightarrow> 'v result \<times> 'a AwaitWrapper \<times> 'a world" where
  "await_resume cls w s =
     (case m_awaitable w of
        None \<Rightarrow> (Stop EmptyOptional, w, s)
      | Some st \<Rightarrow>
          (case getRef st s of
             None \<Rightarrow> (Stop Undefined, w, s)
           | Some a \<Rightarrow>
               (case resume_m cls a of
                  (r, a') \<Rightarrow>
                    (case setRef st a' s of
                       (st', s') \<Rightarrow> (r, w\<lparr>m_awaitable := Some st'\<rparr>, s')))))"

text \<open>\<open>~AwaitWrapper\<close>: the body destroys the trampoline frame when \<open>promise_\<close> is set
  (destroying a frame that is already destroyed is undefined behaviour); then the members are
  destroyed, and \<open>Optional\<close> destroys the awaiter it holds. A \<open>std::reference_wrapper\<close>
  releases nothing. The result lists the awaiters whose destructor ran.\<close>

fun released :: "'a wrapped option \<Rightarrow> 'a list" where
  "released (Some (ByValue a)) = [a]"
| "released (Some (ByRef p)) = []"
| "released None = []"

definition destructor :: "'a AwaitWrapper \<Rightarrow> 'a world \<Rightarrow> 'a list result \<times> 'a world" where
  "destructor w s =
     (case m_promise w of
        Some p \<Rightarrow>
          (case frames s p of
             None \<Rightarrow> (Stop Undefined, s)
           | Some fr \<Rightarrow> (Ok (released (m_awaitable w)), s\<lparr>frames := (frames s)(p := None)\<rparr>))
      | None \<Rightarrow> (Ok (released (m_awaitable w)), s))"

text \<open>Modelled from the spec: folly/Optional.h is not among the sources. Moving from an
  \<open>Optional\<close> gives the new \<open>Optional\<close> the value and leaves the source without one
  ("after a move, the source no longer owns ... the awaiter"). The pair is (new, source).\<close>

definition Optional_move :: "'x option \<Rightarrow> 'x option \<times> 'x option" where
  "Optional_move src = (src, None)"

text \<open>\<open>std::exchange(obj, new_value)\<close>: returns the old value, \<open>obj\<close> becomes the new one.\<close>

definition exchange :: "'x \<Rightarrow> 'x \<Rightarrow> 'x \<times> 'x" where
  "exchange obj new_value = (obj, new_value)"

text \<open>The move constructor \<open>AwaitWrapper(AwaitWrapper&& other)\<close>; the pair is the new wrapper
  and \<open>other\<close> afterwards.\<close>

definition move_ctor :: "'a AwaitWrapper \<Rightarrow> 'a AwaitWrapper \<times> 'a AwaitWrapper" where
  "move_ctor other =
     (case exchange (m_promise other) None of
        (p, p_other) \<Rightarrow>
          (case Optional_move (m_awaitable other) of
             (a, a_other) \<Rightarrow>
               (\<lparr>m_promise = p, m_awaitable = a\<rparr>, \<lparr>m_promise = p_other, m_awaitable = a_other\<rparr>)))"

subsection \<open>Obtaining the awaiter\<close>

text \<open>What an expression of awaiter type is: a temporary (the conversion returned by value),
  an lvalue reference \<open>T&\<close> to an object that lives elsewhere (\<open>Reference\<close>), or an rvalue
  reference \<open>T&&\<close> to such an object.\<close>

datatype 'a awaiter_expr = Prvalue 'a | Reference addr | RvalueReference addr

datatype conversion = MemberCoAwait | FreeCoAwait

text \<open>An awaitable as \<open>get_awaiter\<close> sees it: the object the forwarding reference is bound
  to, and what the two invoke traits (macros of folly, not among the sources) say about its type:
  \<open>Some r\<close> when \<open>operator co_await\<close> is invocable as a member (resp. as a free function),
  \<open>r\<close> being what that call yields. \<open>exposes_protocol\<close> is a further fact about the
  type, which no function of the header looks at: whether the value itself has the members
  \<open>await_ready\<close>, \<open>await_suspend\<close> and \<open>await_resume\<close>.\<close>

record 'a awaitable =
  self :: addr
  exposes_protocol :: bool
  member_operator_co_await :: "'a awaiter_expr option"
  non_member_operator_co_await :: "'a awaiter_expr option"

definition has_member_operator_co_await_v :: "'a awaitable \<Rightarrow> bool" where
  "has_member_operator_co_await_v x = (member_operator_co_await x \<noteq> None)"

definition has_non_member_operator_co_await_v :: "'a awaitable \<Rightarrow> bool" where
  "has_non_member_operator_co_await_v x = (non_member_operator_co_await x \<noteq> None)"

text \<open>\<open>get_awaiter\<close>: the \<open>if constexpr\<close> chain. The result is the list of conversions
  that were invoked and the awaiter expression; the last branch is
  \<open>static_cast<Awaitable&>(awaitable)\<close>.\<close>

definition get_awaiter :: "'a awaitable \<Rightarrow> conversion list \<times> 'a awaiter_expr" where
  "get_awaiter x =
     (case member_operator_co_await x of
        Some r \<Rightarrow> ([MemberCoAwait], r)
      | None \<Rightarrow>
          (case non_member_operator_co_await x of
             Some r \<Rightarrow> ([FreeCoAwait], r)
           | None \<Rightarrow> ([], Reference (self x))))"

text \<open>The three strategies as the specification lists them (the value itself exposes the
  suspend protocol; a member conversion; a free-standing conversion): a type to which one of
  them applies.\<close>

definition suspendable :: "'a awaitable \<Rightarrow> bool" where
  "suspendable x =
     (exposes_protocol x \<or> has_member_operator_co_await_v x \<or>
      has_non_member_operator_co_await_v x)"

text \<open>\<open>Wrapper = conditional_t<is_reference<Awaiter>, reference_wrapper<...>, Awaiter>\<close>
  and the conversion of the awaiter expression to it, as the argument of \<open>create\<close>.
  \<open>is_reference\<close> holds of both kinds of reference. An lvalue converts to the
  \<open>std::reference_wrapper\<close>; for \<open>T&&\<close> the constructor of
  \<open>std::reference_wrapper<T>\<close> from an rvalue is deleted, so the call of \<open>create\<close> is
  ill-formed and \<open>createAwaitWrapper\<close> does not compile for that type: \<open>None\<close>.\<close>

fun Wrapper :: "'a awaiter_expr \<Rightarrow> 'a wrapped option" where
  "Wrapper (Reference p) = Some (ByRef p)"
| "Wrapper (RvalueReference p) = None"
| "Wrapper (Prvalue a) = Some (ByValue a)"

text \<open>The two \<open>createAwaitWrapper\<close> function templates; \<open>None\<close> when their instantiation
  is ill-formed.\<close>

definition createAwaitWrapper :: "'a awaitable \<Rightarrow> 'a AwaitWrapper option" where
  "createAwaitWrapper x =
     (case Wrapper (snd (get_awaiter x)) of
        None \<Rightarrow> None
      | Some a \<Rightarrow> Some (create a))"

definition createAwaitWrapper_with ::
  "'a awaitable \<Rightarrow> addr option \<Rightarrow> 'a world \<Rightarrow> ('a AwaitWrapper \<times> 'a world) option" where
  "createAwaitWrapper_with x executor s =
     (case Wrapper (snd (get_awaiter x)) of
        None \<Rightarrow> None
      | Some a \<Rightarrow> Some (create_with a executor s))"

subsection \<open>Using an adapter: sequences of calls\<close>

text \<open>What the code around an adapter does to it during its lifetime: the three calls of the
  await protocol, and \<open>Complete h\<close>, the resumption of a handle by code outside the header
  (the wrapped operation signalling completion). Each call is observed through its result.\<close>

datatype event = AwaitReady | AwaitSuspend handle | AwaitResume | Complete handle

datatype ('r, 'v) obs =
  ReadyIs "bool result" | SuspendIs "'r result" | ResumeIs "'v result" | CompleteIs "unit result"

fun stopped :: "('r, 'v) obs \<Rightarrow> bool" where
  "stopped (ReadyIs (Stop a)) = True"
| "stopped (SuspendIs (Stop a)) = True"
| "stopped (ResumeIs (Stop a)) = True"
| "stopped (CompleteIs (Stop a)) = True"
| "stopped _ = False"

fun step ::
  "('a, 'r, 'v) awaiter_class \<Rightarrow> event \<Rightarrow> 'a AwaitWrapper \<times> 'a world
     \<Rightarrow> ('r, 'v) obs \<times> 'a AwaitWrapper \<times> 'a world" where
  "step cls AwaitReady (w, s) = (case await_ready cls w s of (r, ws) \<Rightarrow> (ReadyIs r, ws))"
| "step cls (AwaitSuspend h) (w, s) =
     (case await_suspend cls w h s of (r, ws) \<Rightarrow> (SuspendIs r, ws))"
| "step cls AwaitResume (w, s) = (case await_resume cls w s of (r, ws) \<Rightarrow> (ResumeIs r, ws))"
| "step cls (Complete h) (w, s) = (case resume h s of (r, s') \<Rightarrow> (CompleteIs r, w, s'))"

text \<open>A run stops with the process.\<close>

fun run ::
  "('a, 'r, 'v) awaiter_class \<Rightarrow> event list \<Rightarrow> 'a AwaitWrapper \<times> 'a world
     \<Rightarrow> ('r, 'v) obs list \<times> 'a AwaitWrapper \<times> 'a world" where
  "run cls [] ws = ([], ws)"
| "run cls (e # es) ws =
     (case step cls e ws of
        (ob, ws') \<Rightarrow>
          (if stopped ob then ([ob], ws')
           else (case run cls es ws' of (obs, ws'') \<Rightarrow> (ob # obs, ws''))))"

text \<open>The same calls made on the awaiter object itself, with no adapter: awaiting the
  operation directly.\<close>

fun direct_step ::
  "('a, 'r, 'v) awaiter_class \<Rightarrow> event \<Rightarrow> 'a \<times> 'a world \<Rightarrow> ('r, 'v) obs \<times> 'a \<times> 'a world" where
  "direct_step cls AwaitReady (a, s) = (case ready_m cls a of (r, a') \<Rightarrow> (ReadyIs r, a', s))"
| "direct_step cls (AwaitSuspend h) (a, s) =
     (case invoke_suspend cls h a s of (r, as) \<Rightarrow> (SuspendIs r, as))"
| "direct_step cls AwaitResume (a, s) = (case resume_m cls a of (r, a') \<Rightarrow> (ResumeIs r, a', s))"
| "direct_step cls (Complete h) (a, s) = (case resume h s of (r, s') \<Rightarrow> (CompleteIs r, a, s'))"

fun direct_run ::
  "('a, 'r, 'v) awaiter_class \<Rightarrow> event list \<Rightarrow> 'a \<times> 'a world
     \<Rightarrow> ('r, 'v) obs list \<times> 'a \<times> 'a world" where
  "direct_run cls [] as = ([], as)"
| "direct_run cls (e # es) as =
     (case direct_step cls e as of
        (ob, as') \<Rightarrow>
          (if stopped ob then ([ob], as')
           else (case direct_run cls es as' of (obs, as'') \<Rightarrow> (ob # obs, as''))))"

text \<open>Reading a trace: the calls of \<open>Executor::add\<close> made by frame \<open>f\<close>, the number
  of resumptions of the handle of \<open>f\<close>, and whether each \<open>add\<close> by \<open>f\<close> comes after a
  resumption of the handle of \<open>f\<close> (\<open>seen\<close> tells whether one has been passed
  already).\<close>

fun adds_of :: "addr \<Rightarrow> action list \<Rightarrow> action list" where
  "adds_of f [] = []"
| "adds_of f (Added g e h # tr) = (if g = f then Added g e h # adds_of f tr else adds_of f tr)"
| "adds_of f (Resumed h # tr) = adds_of f tr"

fun resumes_of :: "addr \<Rightarrow> action list \<Rightarrow> nat" where
  "resumes_of f [] = 0"
| "resumes_of f (Resumed h # tr) =
     (if h = Trampoline f then Suc (resumes_of f tr) else resumes_of f tr)"
| "resumes_of f (Added g e h # tr) = resumes_of f tr"

fun add_after_resume :: "addr \<Rightarrow> bool \<Rightarrow> action list \<Rightarrow> bool" where
  "add_after_resume f seen [] = True"
| "add_after_resume f seen (Resumed h # tr) = add_after_resume f (seen \<or> h = Trampoline f) tr"
| "add_after_resume f seen (Added g e h # tr) =
     ((if g = f then seen else True) \<and> add_after_resume f seen tr)"

subsection \<open>The invariant of a trampoline frame\<close>

text \<open>What holds of the frame \<open>f\<close> of an adapter from its creation on, in terms of the part
  \<open>tr\<close> of the trace written since: the frame is live and keeps its executor \<open>ex\<close>, which
  exists; the stored continuation is one of the handles \<open>H\<close> it was armed with; every
  \<open>add\<close> by \<open>f\<close> comes after a resumption of \<open>f\<close>; a frame still at its initial
  suspend point has not been resumed and has made no \<open>add\<close>; and as long as \<open>f\<close> has been
  resumed at most once, it has made at most one \<open>add\<close>, on \<open>ex\<close> and with one of those
  handles.\<close>

definition tramp_inv ::
  "addr \<Rightarrow> addr \<Rightarrow> handle set \<Rightarrow> action list \<Rightarrow> 'a world \<Rightarrow> bool" where
  "tramp_inv f ex H base s =
     (\<exists>fr tr. frames s f = Some fr \<and> m_executor (promise fr) = Some ex \<and>
        executors s ex \<noteq> None \<and>
        m_awaiter (promise fr) \<in> H \<and> trace s = base @ tr \<and>
        add_after_resume f False tr \<and>
        (resumes_of f tr \<le> 1 \<longrightarrow>
           length (adds_of f tr) \<le> 1 \<and> (\<forall>e h. Added f e h \<in> set tr \<longrightarrow> e = ex \<and> h \<in> H)) \<and>
        (case at fr of
           InitialSuspend \<Rightarrow> adds_of f tr = [] \<and> resumes_of f tr = 0
         | FinalSuspend \<Rightarrow> Resumed (Trampoline f) \<in> set tr))"

subsection \<open>Concrete awaiters, worlds and awaitables\<close>

text \<open>Two awaiter classes over a counter: the operation is ready once the counter is positive,
  \<open>await_suspend\<close> starts it (and counts), \<open>await_resume\<close> throws while the counter is
  zero. \<open>inline_cls\<close> completes inside \<open>await_suspend\<close> and resumes the handle it was
  given before returning; \<open>lazy_cls\<close> leaves the resumption to a later completion.\<close>

definition inline_cls :: "(nat, bool, nat) awaiter_class" where
  "inline_cls =
     \<lparr>ready_m = (\<lambda>a. (Ok (0 < a), a)),
      suspend_m = (\<lambda>h a. (Ok True, [h], Suc a)),
      resume_m = (\<lambda>a. (if a = 0 then Throw ''not ready'' else Ok a, a))\<rparr>"

definition lazy_cls :: "(nat, bool, nat) awaiter_class" where
  "lazy_cls =
     \<lparr>ready_m = (\<lambda>a. (Ok (0 < a), a)),
      suspend_m = (\<lambda>h a. (Ok True, [], Suc a)),
      resume_m = (\<lambda>a. (if a = 0 then Throw ''not ready'' else Ok a, a))\<rparr>"

text \<open>A world with no frame, an executor at address 7 that accepts every handle, an awaiter
  object at address 3, and an implementation that does nothing more on undefined behaviour; the
  same world with an executor whose \<open>add\<close> throws; and the same world on an implementation
  where resuming a coroutine at its final suspend point runs the final awaiter's
  \<open>await_suspend\<close> once more.\<close>

definition world0 :: "nat world" where
  "world0 = \<lparr>frames = Map.empty, fresh = 0, executors = [7 \<mapsto> (\<lambda>h. None)],
             objs = [3 \<mapsto> 0], trace = [], undefined_adds = (\<lambda>f fr. [])\<rparr>"

definition world_rejecting :: "nat world" where
  "world_rejecting = world0\<lparr>executors := [7 \<mapsto> (\<lambda>h. Some ''queue full'')]\<rparr>"

definition final_awaiter_again :: "addr \<Rightarrow> frame \<Rightarrow> (addr \<times> handle) list" where
  "final_awaiter_again f fr =
     (case m_executor (promise fr) of
        None \<Rightarrow> []
      | Some ex \<Rightarrow> [(ex, m_awaiter (promise fr))])"

definition world_rerun :: "nat world" where
  "world_rerun = world0\<lparr>undefined_adds := final_awaiter_again\<rparr>"

text \<open>Awaitables: a type with both a member and a free \<open>operator co_await\<close> (returning
  different temporaries); an awaiter with neither; a type whose free \<open>operator co_await\<close>
  returns an lvalue reference to the awaiter object at address 3; a type whose member
  \<open>operator co_await\<close> returns an rvalue reference to it; and a value at address 5 that is
  not suspendable: it has no conversion and no member of the await protocol.\<close>

definition both_conversions :: "nat awaitable" where
  "both_conversions = \<lparr>self = 3, exposes_protocol = True,
                        member_operator_co_await = Some (Prvalue 1),
                        non_member_operator_co_await = Some (Prvalue 2)\<rparr>"

definition no_conversion :: "nat awaitable" where
  "no_conversion = \<lparr>self = 3, exposes_protocol = True, member_operator_co_await = None,
                     non_member_operator_co_await = None\<rparr>"

definition free_conversion :: "nat awaitable" where
  "free_conversion = \<lparr>self = 4, exposes_protocol = False, member_operator_co_await = None,
                       non_member_operator_co_await = Some (Reference 3)\<rparr>"

definition rvalue_conversion :: "nat awaitable" where
  "rvalue_conversion = \<lparr>self = 4, exposes_protocol = False,
                         member_operator_co_await = Some (RvalueReference 3),
                         non_member_operator_co_await = None\<rparr>"


section \<open>Properties\<close>

lemmas adapter_defs =
  await_ready_def await_suspend_def inner_await_suspend_def await_resume_def create_def
  AwaitWrapper_of_awaitable_def invoke_suspend_def create_with_def awaitWrapper_def
  get_return_object_def AwaitWrapper_of_promise_def destructor_def move_ctor_def exchange_def
  Optional_move_def resume_trampoline_def FinalAwaiter_await_suspend_def executor_add_def
  undefined_step_def awaitWrapper_body_def return_void_def unhandled_exception_def get_awaiter_def
  createAwaitWrapper_def createAwaitWrapper_with_def
  has_member_operator_co_await_v_def has_non_member_operator_co_await_v_def suspendable_def

subsection \<open>Delegation without an executor\<close>


lemma await_ready_by_value:
  "await_ready cls (create (ByValue x)) s =
     (case ready_m cls x of (r, x') \<Rightarrow> (r, create (ByValue x'), s))"
  by (simp add: await_ready_def create_def AwaitWrapper_of_awaitable_def split: prod.splits)

lemma await_resume_by_value:
  "await_resume cls (create (ByValue x)) s =
     (case resume_m cls x of (r, x') \<Rightarrow> (r, create (ByValue x'), s))"
  by (simp add: await_resume_def create_def AwaitWrapper_of_awaitable_def split: prod.splits)

lemma await_suspend_by_value:
  "await_suspend cls (create (ByValue x)) h s =
     (case invoke_suspend cls h x s of (r, x', s') \<Rightarrow> (r, create (ByValue x'), s'))"
  by (simp add: await_suspend_def inner_await_suspend_def create_def
      AwaitWrapper_of_awaitable_def split: prod.splits)

lemma step_by_value:
  "step cls e (create (ByValue x), s) =
     (case direct_step cls e (x, s) of (ob, x', s') \<Rightarrow> (ob, create (ByValue x'), s'))"
  by (cases e)
     (simp_all add: await_ready_by_value await_resume_by_value await_suspend_by_value
        split: prod.splits)

lemma run_by_value:
  "run cls evs (create (ByValue x), s) =
     (case direct_run cls evs (x, s) of (obs, x', s') \<Rightarrow> (obs, create (ByValue x'), s'))"
proof (induction evs arbitrary: x s)
  case Nil
  show ?case by simp
next
  case (Cons e evs)
  obtain ob x' s' where d: "direct_step cls e (x, s) = (ob, x', s')"
    by (cases "direct_step cls e (x, s)") auto
  then have st: "step cls e (create (ByValue x), s) = (ob, create (ByValue x'), s')"
    by (simp add: step_by_value)
  show ?case
    by (simp add: d st Cons.IH split: prod.splits)
qed

lemma await_ready_by_ref:
  "objs s p = Some x \<Longrightarrow>
   await_ready cls (create (ByRef p)) s =
     (case ready_m cls x of (r, x') \<Rightarrow> (r, create (ByRef p), s\<lparr>objs := (objs s)(p \<mapsto> x')\<rparr>))"
  by (simp add: await_ready_def create_def AwaitWrapper_of_awaitable_def split: prod.splits)

lemma await_resume_by_ref:
  "objs s p = Some x \<Longrightarrow>
   await_resume cls (create (ByRef p)) s =
     (case resume_m cls x of (r, x') \<Rightarrow> (r, create (ByRef p), s\<lparr>objs := (objs s)(p \<mapsto> x')\<rparr>))"
  by (simp add: await_resume_def create_def AwaitWrapper_of_awaitable_def split: prod.splits)

lemma await_suspend_by_ref:
  "objs s p = Some x \<Longrightarrow>
   await_suspend cls (create (ByRef p)) h s =
     (case invoke_suspend cls h x s of
        (r, x', s') \<Rightarrow> (r, create (ByRef p), s'\<lparr>objs := (objs s')(p \<mapsto> x')\<rparr>))"
  by (simp add: await_suspend_def inner_await_suspend_def create_def
      AwaitWrapper_of_awaitable_def split: prod.splits)

text \<open>
  C1. An adapter made by \<open>create(awaitable)\<close>, with no executor, is transparent. For an
  awaiter \<open>x\<close> held by value: \<open>await_ready\<close> returns what \<open>x.await_ready()\<close> returns,
  \<open>await_suspend\<close> is the call \<open>x.await_suspend(h)\<close> with the caller's handle \<open>h\<close>
  itself and returns its result, \<open>await_resume\<close> returns (or throws) what
  \<open>x.await_resume()\<close> does; the adapter afterwards holds the awaiter as the call left it and
  the world is the one the direct call leaves. Any sequence of calls and completions on the adapter
  therefore gives the same observations and the same trace of resumptions as the same sequence on
  \<open>x\<close> directly, so the coroutine is suspended and resumed the same number of times. For an
  awaiter held by reference the three calls are the calls on the object referred to.
\<close>

theorem create_transparent:
  "await_ready cls (create (ByValue x)) s =
     (case ready_m cls x of (r, x') \<Rightarrow> (r, create (ByValue x'), s)) \<and>
   await_suspend cls (create (ByValue x)) h s =
     (case invoke_suspend cls h x s of (r, x', s') \<Rightarrow> (r, create (ByValue x'), s')) \<and>
   await_resume cls (create (ByValue x)) s =
     (case resume_m cls x of (r, x') \<Rightarrow> (r, create (ByValue x'), s)) \<and>
   run cls evs (create (ByValue x), s) =
     (case direct_run cls evs (x, s) of (obs, x', s') \<Rightarrow> (obs, create (ByValue x'), s')) \<and>
   (objs s p = Some y \<longrightarrow>
      await_ready cls (create (ByRef p)) s =
        (case ready_m cls y of
           (r, y') \<Rightarrow> (r, create (ByRef p), s\<lparr>objs := (objs s)(p \<mapsto> y')\<rparr>)) \<and>
      await_suspend cls (create (ByRef p)) h s =
        (case invoke_suspend cls h y s of
           (r, y', s') \<Rightarrow> (r, create (ByRef p), s'\<lparr>objs := (objs s')(p \<mapsto> y')\<rparr>)) \<and>
      await_resume cls (create (ByRef p)) s =
        (case resume_m cls y of
           (r, y') \<Rightarrow> (r, create (ByRef p), s\<lparr>objs := (objs s)(p \<mapsto> y')\<rparr>)))"
  using await_ready_by_value [of cls x s] await_suspend_by_value [of cls x h s]
    await_resume_by_value [of cls x s] run_by_value [of cls evs x s]
    await_ready_by_ref [of s p y cls] await_suspend_by_ref [of s p y cls h]
    await_resume_by_ref [of s p y cls]
  by blast

theorem create_transparent_witness:
  "objs world0 3 = Some 0 \<and>
   await_ready inline_cls (create (ByRef 3)) world0 = (Ok False, create (ByRef 3), world0) \<and>
   fst (await_suspend inline_cls (create (ByRef 3)) (Caller 1) world0) = Ok True \<and>
   trace (snd (snd (await_suspend inline_cls (create (ByRef 3)) (Caller 1) world0)))
     = [Resumed (Caller 1)] \<and>
   fst (await_resume inline_cls (create (ByRef 3)) world0) = Throw ''not ready'' \<and>
   fst (run inline_cls [AwaitReady, AwaitSuspend (Caller 1), AwaitResume] (create (ByValue 0), world0))
     = [ReadyIs (Ok False), SuspendIs (Ok True), ResumeIs (Ok 1)]"
  using create_transparent [of inline_cls 0 world0 "Caller 1" "[AwaitReady, AwaitSuspend (Caller 1), AwaitResume]" 3 0]
  by (simp add: adapter_defs inline_cls_def world0_def)

subsection \<open>The result of \<open>await_resume\<close>\<close>

text \<open>
  C4. Whatever the wrapped awaiter's \<open>await_resume\<close> produces, a value or an exception, is
  what the adapter's \<open>await_resume\<close> produces, with or without an executor and for an awaiter
  held by value or by reference: an exception \<open>Throw e\<close> stays \<open>Throw e\<close>, a value
  \<open>Ok v\<close> stays \<open>Ok v\<close>.
\<close>

theorem await_resume_propagates:
  "m_awaitable w = Some st \<Longrightarrow> getRef st s = Some a \<Longrightarrow>
   fst (await_resume cls w s) = fst (resume_m cls a)"
  by (simp add: await_resume_def split: prod.splits)

theorem await_resume_propagates_witness:
  "fst (await_resume inline_cls (fst (create_with (ByRef 3) (Some 7) world0)) world0)
     = Throw ''not ready'' \<and>
   fst (await_resume inline_cls (create (ByValue 5)) world0) = Ok 5"
proof -
  have r1: "m_awaitable (fst (create_with (ByRef 3) (Some 7) world0)) = Some (ByRef 3)"
    by (simp add: adapter_defs world0_def)
  have r2: "getRef (ByRef 3) world0 = Some 0"
    by (simp add: world0_def)
  have v1: "m_awaitable (create (ByValue (5::nat))) = Some (ByValue 5)"
    by (simp add: adapter_defs)
  have v2: "getRef (ByValue (5::nat)) world0 = Some 5"
    by simp
  from await_resume_propagates [OF r1 r2, of inline_cls]
    await_resume_propagates [OF v1 v2, of inline_cls]
  show ?thesis by (simp add: inline_cls_def)
qed

subsection \<open>Suspending with an executor\<close>

text \<open>
  C2. For an adapter made by \<open>create(awaitable, executor)\<close>, whose frame is live:
  \<open>await_suspend(h)\<close> first writes \<open>h\<close> to \<open>awaiter_\<close> in the promise of the
  trampoline frame, then calls the wrapped awaiter's \<open>await_suspend\<close> with the handle of the
  trampoline (not with \<open>h\<close>), in the world where \<open>h\<close> is already stored, and returns that
  call's result unchanged.
\<close>

theorem await_suspend_arms_trampoline:
  assumes "create_with a executor s0 = (w, s1)"
    and "frames s (fresh s0) = Some fr"
    and "getRef a s = Some x"
  shows "await_suspend cls w h s =
           (case invoke_suspend cls (Trampoline (fresh s0)) x
                   (s\<lparr>frames := (frames s)
                        (fresh s0 \<mapsto> fr\<lparr>promise := (promise fr)\<lparr>m_awaiter := h\<rparr>\<rparr>)\<rparr>) of
              (r, x', s2) \<Rightarrow>
                (case setRef a x' s2 of (a', s3) \<Rightarrow> (r, w\<lparr>m_awaitable := Some a'\<rparr>, s3))) \<and>
         (\<forall>r x'. suspend_m cls (Trampoline (fresh s0)) x = (r, [], x') \<longrightarrow>
                 fst (await_suspend cls w h s) = r)"
proof -
  from assms(1) have w: "m_promise w = Some (fresh s0)" "m_awaitable w = Some a"
    by (auto simp: create_with_def awaitWrapper_def get_return_object_def
        AwaitWrapper_of_promise_def Let_def)
  have g: "getRef a (s\<lparr>frames := m\<rparr>) = getRef a s" for m
    by (cases a) simp_all
  have 1: "await_suspend cls w h s =
           (case invoke_suspend cls (Trampoline (fresh s0)) x
                   (s\<lparr>frames := (frames s)
                        (fresh s0 \<mapsto> fr\<lparr>promise := (promise fr)\<lparr>m_awaiter := h\<rparr>\<rparr>)\<rparr>) of
              (r, x', s2) \<Rightarrow>
                (case setRef a x' s2 of (a', s3) \<Rightarrow> (r, w\<lparr>m_awaitable := Some a'\<rparr>, s3)))"
    using w assms(2,3) by (simp add: await_suspend_def inner_await_suspend_def g)
  have 2: "fst (await_suspend cls w h s) = r"
    if "suspend_m cls (Trampoline (fresh s0)) x = (r, [], x')" for r x'
    using that unfolding 1 by (simp add: invoke_suspend_def split: prod.splits)
  from 1 2 show ?thesis by blast
qed

theorem await_suspend_arms_trampoline_witness:
  "(case create_with (ByValue 0) (Some 7) world0 of
      (w, s) \<Rightarrow>
        frames s 0 =
          Some \<lparr>promise = \<lparr>m_executor = Some 7, m_awaiter = NullHandle\<rparr>, at = InitialSuspend\<rparr> \<and>
        fst (await_suspend lazy_cls w (Caller 1) s) = Ok True \<and>
        trace (snd (snd (await_suspend lazy_cls w (Caller 1) s))) = [] \<and>
        map_option (\<lambda>fr. m_awaiter (promise fr))
          (frames (snd (snd (await_suspend lazy_cls w (Caller 1) s))) 0) = Some (Caller 1) \<and>
        fst (await_suspend inline_cls w (Caller 1) s) = Ok True \<and>
        trace (snd (snd (await_suspend inline_cls w (Caller 1) s)))
          = [Resumed (Trampoline 0), Added 0 7 (Caller 1)])"
proof -
  obtain w s where c: "create_with (ByValue (0::nat)) (Some 7) world0 = (w, s)"
    by (cases "create_with (ByValue (0::nat)) (Some 7) world0") auto
  then have s: "s = \<lparr>frames = [0 \<mapsto> \<lparr>promise = \<lparr>m_executor = Some 7, m_awaiter = NullHandle\<rparr>,
                                       at = InitialSuspend\<rparr>],
                      fresh = 1, executors = [7 \<mapsto> (\<lambda>h. None)], objs = [3 \<mapsto> 0], trace = [],
                      undefined_adds = (\<lambda>f fr. [])\<rparr>"
    and w: "w = \<lparr>m_promise = Some 0, m_awaitable = Some (ByValue 0)\<rparr>"
    by (auto simp: adapter_defs world0_def)
  have f: "frames s (fresh world0) =
      Some \<lparr>promise = \<lparr>m_executor = Some 7, m_awaiter = NullHandle\<rparr>, at = InitialSuspend\<rparr>"
    by (simp add: s world0_def)
  have g: "getRef (ByValue (0::nat)) s = Some 0"
    by simp
  from await_suspend_arms_trampoline [OF c f g, of lazy_cls "Caller 1"]
    await_suspend_arms_trampoline [OF c f g, of inline_cls "Caller 1"]
  show ?thesis
    unfolding c
    by (simp add: s w world0_def invoke_suspend_def resume_trampoline_def
        FinalAwaiter_await_suspend_def executor_add_def awaitWrapper_body_def return_void_def
        inline_cls_def lazy_cls_def)
qed

subsection \<open>Posting to the executor\<close>

lemma adds_of_append: "adds_of f (xs @ ys) = adds_of f xs @ adds_of f ys"
  by (induction f xs rule: adds_of.induct) simp_all

lemma resumes_of_append: "resumes_of f (xs @ ys) = resumes_of f xs + resumes_of f ys"
  by (induction f xs rule: resumes_of.induct) simp_all

lemma add_after_resume_append:
  "add_after_resume f seen (xs @ ys) =
     (add_after_resume f seen xs \<and>
      add_after_resume f (seen \<or> Resumed (Trampoline f) \<in> set xs) ys)"
proof (induction xs arbitrary: seen)
  case Nil
  show ?case by simp
next
  case (Cons x xs)
  show ?case
  proof (cases x)
    case (Resumed h)
    have "(Trampoline f = h) = (h = Trampoline f)" by auto
    then show ?thesis using Cons.IH [of "seen \<or> h = Trampoline f"] Resumed
      by (simp add: disj_assoc)
  next
    case (Added g e h)
    then show ?thesis using Cons.IH [of seen] by auto
  qed
qed

lemma add_after_resume_seen: "add_after_resume f True tr"
proof (induction tr)
  case Nil
  show ?case by simp
next
  case (Cons x tr)
  then show ?case by (cases x) simp_all
qed

lemma add_after_resume_foreign: "adds_of f ys = [] \<Longrightarrow> add_after_resume f seen ys"
  by (induction f seen ys rule: add_after_resume.induct) (auto split: if_splits)

lemma adds_of_mem: "Added f e h \<in> set tr \<Longrightarrow> Added f e h \<in> set (adds_of f tr)"
  by (induction f tr rule: adds_of.induct) auto

lemma resumes_of_mem: "Resumed (Trampoline f) \<in> set tr \<Longrightarrow> 0 < resumes_of f tr"
  by (induction f tr rule: resumes_of.induct) auto

lemma adds_of_undefined_other:
  "g \<noteq> f \<Longrightarrow> adds_of f (map (\<lambda>(e, h). Added g e h) xs) = []"
  by (induction xs) auto

lemma resumes_of_undefined: "resumes_of f (map (\<lambda>(e, h). Added g e h) xs) = 0"
  by (induction xs) auto

lemma tramp_inv_mono: "tramp_inv f ex H base s \<Longrightarrow> H \<subseteq> H' \<Longrightarrow> tramp_inv f ex H' base s"
  unfolding tramp_inv_def by blast

lemma tramp_inv_objs: "tramp_inv f ex H base (s\<lparr>objs := m\<rparr>) = tramp_inv f ex H base s"
  by (simp add: tramp_inv_def)

text \<open>Actions of other frames and of callers leave the invariant of \<open>f\<close> alone.\<close>

lemma tramp_inv_foreign:
  assumes "tramp_inv f ex H base s"
    and "trace s' = trace s @ ys" and "adds_of f ys = []" and "resumes_of f ys = 0"
    and "frames s' f = frames s f" and "executors s' = executors s"
  shows "tramp_inv f ex H base s'"
proof -
  from assms(1) obtain fr :: frame and tr where
    fr: "frames s f = Some fr" "m_executor (promise fr) = Some ex" "executors s ex \<noteq> None"
      "m_awaiter (promise fr) \<in> H"
    and tr: "trace s = base @ tr" "add_after_resume f False tr"
    and once: "resumes_of f tr \<le> 1 \<longrightarrow>
         length (adds_of f tr) \<le> 1 \<and> (\<forall>e h. Added f e h \<in> set tr \<longrightarrow> e = ex \<and> h \<in> H)"
    and pt: "case at fr of InitialSuspend \<Rightarrow> adds_of f tr = [] \<and> resumes_of f tr = 0
             | FinalSuspend \<Rightarrow> Resumed (Trampoline f) \<in> set tr"
    unfolding tramp_inv_def by blast
  have no: "Added f e h \<notin> set ys" for e h
    using adds_of_mem [of f e h ys] assms(3) by auto
  have 1: "trace s' = base @ (tr @ ys)"
    using assms(2) tr(1) by simp
  have 2: "add_after_resume f False (tr @ ys)"
    using tr(2) add_after_resume_foreign [OF assms(3)] by (simp add: add_after_resume_append)
  have 3: "resumes_of f (tr @ ys) \<le> 1 \<longrightarrow>
         length (adds_of f (tr @ ys)) \<le> 1 \<and>
         (\<forall>e h. Added f e h \<in> set (tr @ ys) \<longrightarrow> e = ex \<and> h \<in> H)"
    using once no assms(3,4) by (auto simp: adds_of_append resumes_of_append)
  have 4: "case at fr of
             InitialSuspend \<Rightarrow> adds_of f (tr @ ys) = [] \<and> resumes_of f (tr @ ys) = 0
           | FinalSuspend \<Rightarrow> Resumed (Trampoline f) \<in> set (tr @ ys)"
    using pt assms(3,4)
    by (cases "at fr") (simp_all add: adds_of_append resumes_of_append)
  show ?thesis
    unfolding tramp_inv_def
    using fr assms(5,6) 1 2 3 4 by (intro exI [of _ fr] exI [of _ "tr @ ys"]) simp
qed

lemma resume_foreign:
  assumes "h \<noteq> Trampoline f" and "resume h s = (r, s')"
  shows "\<exists>ys. trace s' = trace s @ ys \<and> adds_of f ys = [] \<and> resumes_of f ys = 0 \<and>
              frames s' f = frames s f \<and> executors s' = executors s"
proof (cases h)
  case NullHandle
  with assms(2) show ?thesis by auto
next
  case (Caller n)
  with assms(2) show ?thesis by auto
next
  case (Trampoline g)
  with assms(1) have gf: "g \<noteq> f" by simp
  from assms(2) Trampoline gf show ?thesis
    by (auto simp: resume_trampoline_def FinalAwaiter_await_suspend_def executor_add_def
        undefined_step_def awaitWrapper_body_def return_void_def
        adds_of_append resumes_of_append adds_of_undefined_other resumes_of_undefined
        split: option.splits suspend_point.splits prod.splits)
qed

text \<open>A resumption of \<open>f\<close> itself: the first one makes the one \<open>add\<close>; any later one is
  undefined and leaves nothing to say about the number of calls.\<close>

lemma resume_self_inv:
  assumes "tramp_inv f ex H base s" and "resume (Trampoline f) s = (r, s')"
  shows "tramp_inv f ex H base s'"
proof -
  from assms(1) obtain fr :: frame and tr where
    fr: "frames s f = Some fr" "m_executor (promise fr) = Some ex" "executors s ex \<noteq> None"
      "m_awaiter (promise fr) \<in> H"
    and tr: "trace s = base @ tr" "add_after_resume f False tr"
    and once: "resumes_of f tr \<le> 1 \<longrightarrow>
         length (adds_of f tr) \<le> 1 \<and> (\<forall>e h. Added f e h \<in> set tr \<longrightarrow> e = ex \<and> h \<in> H)"
    and pt: "case at fr of InitialSuspend \<Rightarrow> adds_of f tr = [] \<and> resumes_of f tr = 0
             | FinalSuspend \<Rightarrow> Resumed (Trampoline f) \<in> set tr"
    unfolding tramp_inv_def by blast
  from fr(3) obtain E where E: "executors s ex = Some E" by auto
  show ?thesis
  proof (cases "at fr")
    case InitialSuspend
    let ?h = "m_awaiter (promise fr)"
    let ?ys = "[Resumed (Trampoline f), Added f ex ?h]"
    from pt InitialSuspend have z: "adds_of f tr = []" "resumes_of f tr = 0" by simp_all
    have no: "Added f e h \<notin> set tr" for e h
      using adds_of_mem [of f e h tr] z(1) by auto
    from assms(2) fr E InitialSuspend
    have s': "frames s' f = Some (fr\<lparr>at := FinalSuspend\<rparr>)" "executors s' = executors s"
      "trace s' = trace s @ ?ys"
      by (auto simp: resume_trampoline_def FinalAwaiter_await_suspend_def executor_add_def
          awaitWrapper_body_def return_void_def split: option.splits)
    have 2: "add_after_resume f False (tr @ ?ys)"
      using tr(2) by (simp add: add_after_resume_append)
    have 3: "length (adds_of f (tr @ ?ys)) \<le> 1 \<and>
             (\<forall>e h. Added f e h \<in> set (tr @ ?ys) \<longrightarrow> e = ex \<and> h \<in> H)"
      using z no fr(4) by (auto simp: adds_of_append)
    show ?thesis
      unfolding tramp_inv_def
      using s' fr E tr(1) 2 3
      by (intro exI [of _ "fr\<lparr>at := FinalSuspend\<rparr>"] exI [of _ "tr @ ?ys"]) simp
  next
    case FinalSuspend
    let ?ys = "Resumed (Trampoline f) # map (\<lambda>(e, h). Added f e h) (undefined_adds s f fr)"
    from pt FinalSuspend have m: "Resumed (Trampoline f) \<in> set tr" by simp
    from assms(2) fr FinalSuspend
    have s': "frames s' f = Some fr" "executors s' = executors s" "trace s' = trace s @ ?ys"
      by (auto simp: resume_trampoline_def undefined_step_def)
    have 2: "add_after_resume f False (tr @ ?ys)"
      using tr(2) by (simp add: add_after_resume_append add_after_resume_seen)
    have 3: "\<not> resumes_of f (tr @ ?ys) \<le> 1"
      using resumes_of_mem [OF m] by (simp add: resumes_of_append)
    show ?thesis
      unfolding tramp_inv_def
      using s' fr FinalSuspend tr(1) 2 3 m
      by (intro exI [of _ fr] exI [of _ "tr @ ?ys"]) simp
  qed
qed

lemma resume_inv:
  assumes "tramp_inv f ex H base s" and "resume h s = (r, s')"
  shows "tramp_inv f ex H base s'"
proof (cases "h = Trampoline f")
  case True
  with assms show ?thesis by (auto intro: resume_self_inv)
next
  case False
  from resume_foreign [OF False assms(2)] obtain ys where
    "trace s' = trace s @ ys" "adds_of f ys = []" "resumes_of f ys = 0"
    "frames s' f = frames s f" "executors s' = executors s"
    by blast
  then show ?thesis by (rule tramp_inv_foreign [OF assms(1)])
qed

lemma resume_all_inv:
  "tramp_inv f ex H base s \<Longrightarrow> resume_all hs s = (r, s') \<Longrightarrow> tramp_inv f ex H base s'"
proof (induction hs arbitrary: s)
  case Nil
  then show ?case by simp
next
  case (Cons h hs)
  obtain q s1 where q: "resume h s = (q, s1)" by (cases "resume h s") auto
  have i: "tramp_inv f ex H base s1" by (rule resume_inv [OF Cons.prems(1) q])
  show ?case
  proof (cases q)
    case (Stop a)
    with Cons.prems(2) q i show ?thesis by simp
  next
    case (Ok u)
    with Cons.prems(2) q have "resume_all hs s1 = (r, s')" by simp
    from Cons.IH [OF i this] show ?thesis .
  next
    case (Throw e)
    with Cons.prems(2) q have "resume_all hs s1 = (r, s')" by simp
    from Cons.IH [OF i this] show ?thesis .
  qed
qed

lemma invoke_suspend_inv:
  "tramp_inv f ex H base s \<Longrightarrow> invoke_suspend cls h a s = (r, a', s') \<Longrightarrow>
   tramp_inv f ex H base s'"
  unfolding invoke_suspend_def
  by (auto split: prod.splits result.splits dest: resume_all_inv)

lemma setRef_inv:
  "tramp_inv f ex H base s \<Longrightarrow> setRef st a s = (st', s') \<Longrightarrow> tramp_inv f ex H base s'"
  by (cases st) (auto simp: tramp_inv_objs)

lemma await_ready_inv:
  "tramp_inv f ex H base s \<Longrightarrow> await_ready cls w s = (r, w', s') \<Longrightarrow>
   tramp_inv f ex H base s' \<and> m_promise w' = m_promise w"
  unfolding await_ready_def
  by (auto split: option.splits prod.splits dest: setRef_inv)

lemma await_resume_inv:
  "tramp_inv f ex H base s \<Longrightarrow> await_resume cls w s = (r, w', s') \<Longrightarrow>
   tramp_inv f ex H base s' \<and> m_promise w' = m_promise w"
  unfolding await_resume_def
  by (auto split: option.splits prod.splits dest: setRef_inv)

lemma inner_await_suspend_inv:
  "tramp_inv f ex H base s \<Longrightarrow> inner_await_suspend cls w h s = (r, w', s') \<Longrightarrow>
   tramp_inv f ex H base s' \<and> m_promise w' = m_promise w"
  unfolding inner_await_suspend_def
  by (auto split: option.splits prod.splits dest: setRef_inv invoke_suspend_inv)

lemma arm_inv:
  "tramp_inv f ex H base s \<Longrightarrow> frames s f = Some fr \<Longrightarrow>
   tramp_inv f ex (insert h H) base
     (s\<lparr>frames := (frames s)(f \<mapsto> fr\<lparr>promise := (promise fr)\<lparr>m_awaiter := h\<rparr>\<rparr>)\<rparr>)"
  unfolding tramp_inv_def by auto

lemma await_suspend_inv:
  assumes "tramp_inv f ex H base s" and "m_promise w = Some f"
    and "await_suspend cls w h s = (r, w', s')"
  shows "tramp_inv f ex (insert h H) base s' \<and> m_promise w' = m_promise w"
proof -
  from assms(1) obtain fr where fr: "frames s f = Some fr" by (auto simp: tramp_inv_def)
  from assms(3) assms(2) fr
  have "inner_await_suspend cls w (Trampoline f)
     (s\<lparr>frames := (frames s)(f \<mapsto> fr\<lparr>promise := (promise fr)\<lparr>m_awaiter := h\<rparr>\<rparr>)\<rparr>) = (r, w', s')"
    by (simp add: await_suspend_def)
  from inner_await_suspend_inv [OF arm_inv [OF assms(1) fr] this] show ?thesis .
qed

lemma step_inv:
  assumes "tramp_inv f ex H base s" and "m_promise w = Some f"
    and "step cls e (w, s) = (ob, w', s')"
  shows "tramp_inv f ex (H \<union> {h. e = AwaitSuspend h}) base s' \<and> m_promise w' = Some f"
proof (cases e)
  case AwaitReady
  with assms await_ready_inv [OF assms(1), of cls w] show ?thesis
    by (auto split: prod.splits)
next
  case (AwaitSuspend h)
  with assms await_suspend_inv [OF assms(1) assms(2), of cls h] show ?thesis
    by (auto split: prod.splits)
next
  case AwaitResume
  with assms await_resume_inv [OF assms(1), of cls w] show ?thesis
    by (auto split: prod.splits)
next
  case (Complete h)
  with assms resume_inv [OF assms(1), of h] show ?thesis
    by (auto split: prod.splits)
qed

lemma run_inv:
  "tramp_inv f ex H base s \<Longrightarrow> m_promise w = Some f \<Longrightarrow> run cls evs (w, s) = (os, w', s') \<Longrightarrow>
   tramp_inv f ex (H \<union> {h. AwaitSuspend h \<in> set evs}) base s'"
proof (induction evs arbitrary: w s H os)
  case Nil
  then show ?case by simp
next
  case (Cons e evs)
  obtain ob w1 s1 where st: "step cls e (w, s) = (ob, w1, s1)"
    by (cases "step cls e (w, s)") auto
  from step_inv [OF Cons.prems(1) Cons.prems(2) st]
  have i: "tramp_inv f ex (H \<union> {h. e = AwaitSuspend h}) base s1" and p: "m_promise w1 = Some f"
    by auto
  show ?case
  proof (cases "stopped ob")
    case True
    with Cons.prems(3) st have "s' = s1" by simp
    with i show ?thesis by (auto elim: tramp_inv_mono)
  next
    case False
    obtain os2 where "run cls evs (w1, s1) = (os2, w', s')"
      using Cons.prems(3) st False by (auto split: prod.splits)
    from Cons.IH [OF i p this] show ?thesis by (auto elim: tramp_inv_mono)
  qed
qed

lemma create_with_inv:
  "create_with a (Some ex) s = (w, s0) \<Longrightarrow> executors s ex = Some E \<Longrightarrow>
   tramp_inv (fresh s) ex {NullHandle} (trace s) s0 \<and> m_promise w = Some (fresh s)"
  by (auto simp: create_with_def awaitWrapper_def get_return_object_def
      AwaitWrapper_of_promise_def tramp_inv_def Let_def)

text \<open>
  C3, as the code has it. Take an adapter made by \<open>create(awaitable, executor)\<close> with an
  executor that exists, and any sequence of calls of its await protocol and of resumptions of
  handles by code outside the header. In the trace written since the creation, every call of
  \<open>Executor::add\<close> by the adapter's trampoline comes after a resumption of the trampoline's
  handle, never before. If the trampoline's handle is resumed at most once, the trampoline posts
  at most once, on the adapter's executor, and the handle posted is the continuation given to an
  \<open>await_suspend\<close> (or the null handle, when the trampoline was resumed before any
  \<open>await_suspend\<close>). Nothing is promised once the handle is resumed a second time: the
  coroutine is then at its final suspend point, the resumption is undefined, and the header
  has no guard. (A run ends with the process, so at the first step whose behaviour is
  undefined; the condition on the number of resumptions is what keeps the adapter's own frame
  clear of such a step.)
\<close>

theorem trampoline_posts_once_when_resumed_once:
  assumes "create_with a (Some ex) s = (w0, s0)" and "executors s ex = Some E"
    and "run cls evs (w0, s0) = (os, w', s')"
  shows "\<exists>tr. trace s' = trace s @ tr \<and>
           add_after_resume (fresh s) False tr \<and>
           (resumes_of (fresh s) tr \<le> 1 \<longrightarrow>
              length (adds_of (fresh s) tr) \<le> 1 \<and>
              (\<forall>e h. Added (fresh s) e h \<in> set tr \<longrightarrow>
                     e = ex \<and> (h = NullHandle \<or> AwaitSuspend h \<in> set evs)))"
proof -
  from create_with_inv [OF assms(1,2)]
  have i: "tramp_inv (fresh s) ex {NullHandle} (trace s) s0" and p: "m_promise w0 = Some (fresh s)"
    by auto
  from run_inv [OF i p assms(3)]
  obtain tr where t: "trace s' = trace s @ tr" "add_after_resume (fresh s) False tr"
    and a: "resumes_of (fresh s) tr \<le> 1 \<longrightarrow>
              length (adds_of (fresh s) tr) \<le> 1 \<and>
              (\<forall>e h. Added (fresh s) e h \<in> set tr \<longrightarrow>
                     e = ex \<and> h \<in> {NullHandle} \<union> {h. AwaitSuspend h \<in> set evs})"
    unfolding tramp_inv_def by blast
  from t a show ?thesis by auto
qed

theorem trampoline_posts_once_when_resumed_once_witness:
  "(case create_with (ByValue 0) (Some 7) world0 of
      (w0, s0) \<Rightarrow>
        (case run lazy_cls
                [AwaitReady, AwaitSuspend (Caller 1), Complete (Trampoline 0), AwaitResume]
                (w0, s0) of
           (os, w', s') \<Rightarrow>
             executors world0 7 = Some (\<lambda>h. None) \<and>
             os = [ReadyIs (Ok False), SuspendIs (Ok True), CompleteIs (Ok ()),
                   ResumeIs (Ok 1)] \<and>
             trace s' = [Resumed (Trampoline 0), Added 0 7 (Caller 1)] \<and>
             resumes_of (fresh world0) (trace s') \<le> 1 \<and>
             (\<exists>tr. trace s' = trace world0 @ tr \<and>
                   add_after_resume (fresh world0) False tr \<and>
                   (resumes_of (fresh world0) tr \<le> 1 \<longrightarrow>
                      length (adds_of (fresh world0) tr) \<le> 1 \<and>
                      (\<forall>e h. Added (fresh world0) e h \<in> set tr \<longrightarrow>
                             e = 7 \<and>
                             (h = NullHandle \<or>
                              AwaitSuspend h \<in> set [AwaitReady, AwaitSuspend (Caller 1),
                                                   Complete (Trampoline 0), AwaitResume]))))))"
proof -
  obtain w0 s0 where c: "create_with (ByValue (0::nat)) (Some 7) world0 = (w0, s0)"
    by (cases "create_with (ByValue (0::nat)) (Some 7) world0") auto
  obtain os w' s' where
    r: "run lazy_cls [AwaitReady, AwaitSuspend (Caller 1), Complete (Trampoline 0), AwaitResume]
          (w0, s0) = (os, w', s')"
    by (cases "run lazy_cls [AwaitReady, AwaitSuspend (Caller 1), Complete (Trampoline 0),
                 AwaitResume] (w0, s0)") auto
  have x: "executors world0 7 = Some (\<lambda>h. None)"
    by (simp add: world0_def)
  from c have s0: "s0 = \<lparr>frames = [0 \<mapsto> \<lparr>promise = \<lparr>m_executor = Some 7, m_awaiter = NullHandle\<rparr>,
                                       at = InitialSuspend\<rparr>],
                      fresh = 1, executors = [7 \<mapsto> (\<lambda>h. None)], objs = [3 \<mapsto> 0], trace = [],
                      undefined_adds = (\<lambda>f fr. [])\<rparr>"
    and w0: "w0 = \<lparr>m_promise = Some 0, m_awaitable = Some (ByValue 0)\<rparr>"
    by (auto simp: adapter_defs world0_def)
  from r have e: "os = [ReadyIs (Ok False), SuspendIs (Ok True), CompleteIs (Ok ()),
                        ResumeIs (Ok 1)]"
    "trace s' = [Resumed (Trampoline 0), Added 0 7 (Caller 1)]"
    by (auto simp: s0 w0 adapter_defs lazy_cls_def)
  have f0: "fresh world0 = 0"
    by (simp add: world0_def)
  note t = trampoline_posts_once_when_resumed_once [OF c x r]
  with e x f0 show ?thesis
    unfolding c prod.case r by simp
qed

text \<open>
  C3, as stated, fails. On an implementation where resuming a coroutine at its final suspend
  point runs the final awaiter once more, a completion that is signalled twice makes the
  trampoline of one adapter call \<open>Executor::add\<close> twice with the caller's continuation.
\<close>

theorem second_completion_posts_again:
  "adds_of 0
     (trace (snd (snd (run lazy_cls
        [AwaitSuspend (Caller 1), Complete (Trampoline 0), Complete (Trampoline 0)]
        (create_with (ByValue 0) (Some 7) world_rerun)))))
     = [Added 0 7 (Caller 1), Added 0 7 (Caller 1)] \<and>
   \<not> length (adds_of 0
        (trace (snd (snd (run lazy_cls
           [AwaitSuspend (Caller 1), Complete (Trampoline 0), Complete (Trampoline 0)]
           (create_with (ByValue 0) (Some 7) world_rerun)))))) \<le> 1"
  by (simp add: adapter_defs lazy_cls_def world0_def world_rerun_def final_awaiter_again_def)

subsection \<open>A throwing executor\<close>

text \<open>The \<open>LOG(FATAL)\<close> of \<open>unhandled_exception\<close> is reached by no resumption: the body
  of the trampoline cannot throw, and the call of \<open>add\<close> is not in the body but in
  \<open>FinalAwaiter::await_suspend\<close>.\<close>

lemma resume_never_logs_fatal: "fst (resume h s) \<noteq> Stop (LogFatal m e)"
  by (cases h)
     (auto simp: resume_trampoline_def FinalAwaiter_await_suspend_def executor_add_def
        undefined_step_def awaitWrapper_body_def return_void_def
        split: option.splits suspend_point.splits prod.splits)

text \<open>Whenever the \<open>add\<close> of the frame's executor throws on the stored continuation,
  resuming the trampoline from its initial suspend point ends in \<open>std::terminate\<close>.\<close>

lemma rejected_add_terminates:
  assumes "frames s f = Some fr" and "at fr = InitialSuspend"
    and "m_executor (promise fr) = Some ex" and "executors s ex = Some E"
    and "E (m_awaiter (promise fr)) = Some e"
  shows "fst (resume (Trampoline f) s) = Stop (StdTerminate e)"
  using assms
  by (simp add: resume_trampoline_def FinalAwaiter_await_suspend_def executor_add_def
      awaitWrapper_body_def return_void_def)

text \<open>
  C5. An executor whose \<open>add\<close> throws, on an armed trampoline that the wrapped operation
  resumes. The exception leaves \<open>FinalAwaiter::await_suspend\<close>, which is \<open>noexcept\<close>, so
  the process ends through \<open>std::terminate\<close>: the continuation is neither resumed nor handed
  back, there is no recoverable path, and the diagnostic of \<open>unhandled_exception\<close>
  ("Failed to schedule a task to awake a coroutine") is not produced.
\<close>

theorem scheduling_failure_calls_terminate:
  "(case create_with (ByValue 0) (Some 7) world_rejecting of
      (w, s) \<Rightarrow>
        (case run lazy_cls [AwaitSuspend (Caller 1), Complete (Trampoline 0)] (w, s) of
           (os, w', s') \<Rightarrow>
             os = [SuspendIs (Ok True), CompleteIs (Stop (StdTerminate ''queue full''))] \<and>
             trace s' = [Resumed (Trampoline 0), Added 0 7 (Caller 1)]))"
  by (simp add: adapter_defs lazy_cls_def world0_def world_rejecting_def)

subsection \<open>Awaiters held by reference\<close>

text \<open>
  C6, as the code has it. When \<open>get_awaiter\<close> yields an lvalue reference,
  \<open>createAwaitWrapper\<close> (with or without an executor) is well-formed and stores a
  \<open>std::reference_wrapper\<close> to the object and no copy of it. The adapter's \<open>await_ready\<close>,
  \<open>await_suspend\<close> and \<open>await_resume\<close> then run on whatever the object at that address is
  when they are called (so a change made to it after the adapter was constructed is seen), and
  what they change is changed in that object.
\<close>

theorem lvalue_reference_awaiter_not_copied:
  assumes "snd (get_awaiter x) = Reference p"
  shows "createAwaitWrapper x = Some \<lparr>m_promise = None, m_awaitable = Some (ByRef p)\<rparr> \<and>
         map_option (\<lambda>ws. m_awaitable (fst ws)) (createAwaitWrapper_with x executor s0)
           = Some (Some (ByRef p)) \<and>
         (\<forall>w. createAwaitWrapper x = Some w \<longrightarrow>
            released (m_awaitable w) = [] \<and>
            (objs s p = Some a \<longrightarrow>
               await_ready cls w s =
                 (case ready_m cls a of
                    (r, a') \<Rightarrow> (r, w, s\<lparr>objs := (objs s)(p \<mapsto> a')\<rparr>)) \<and>
               await_suspend cls w h s =
                 (case invoke_suspend cls h a s of
                    (r, a', s') \<Rightarrow> (r, w, s'\<lparr>objs := (objs s')(p \<mapsto> a')\<rparr>)) \<and>
               await_resume cls w s =
                 (case resume_m cls a of
                    (r, a') \<Rightarrow> (r, w, s\<lparr>objs := (objs s)(p \<mapsto> a')\<rparr>))))"
proof -
  have c: "createAwaitWrapper x = Some (create (ByRef p))"
    using assms by (simp add: createAwaitWrapper_def)
  have 1: "createAwaitWrapper x = Some \<lparr>m_promise = None, m_awaitable = Some (ByRef p)\<rparr>"
    by (simp add: c create_def AwaitWrapper_of_awaitable_def)
  have 2: "map_option (\<lambda>ws. m_awaitable (fst ws)) (createAwaitWrapper_with x executor s0)
             = Some (Some (ByRef p))"
    using assms
    by (simp add: createAwaitWrapper_with_def create_with_def awaitWrapper_def
        get_return_object_def AwaitWrapper_of_promise_def Let_def)
  have 3: "released (m_awaitable (create (ByRef p) :: 'a AwaitWrapper)) = []"
    by (simp add: create_def AwaitWrapper_of_awaitable_def)
  show ?thesis
    using 1 2 3 await_ready_by_ref [of s p a cls] await_suspend_by_ref [of s p a cls h]
      await_resume_by_ref [of s p a cls]
    unfolding c by auto
qed

theorem lvalue_reference_awaiter_not_copied_witness:
  "snd (get_awaiter free_conversion) = Reference 3 \<and>
   createAwaitWrapper free_conversion = Some (create (ByRef 3)) \<and>
   released (m_awaitable (create (ByRef 3) :: nat AwaitWrapper)) = [] \<and>
   fst (await_ready inline_cls (create (ByRef 3)) world0) = Ok False \<and>
   fst (await_ready inline_cls (create (ByRef 3))
          (world0\<lparr>objs := (objs world0)(3 \<mapsto> 9)\<rparr>)) = Ok True \<and>
   fst (await_resume inline_cls (create (ByRef 3))
          (world0\<lparr>objs := (objs world0)(3 \<mapsto> 9)\<rparr>)) = Ok 9 \<and>
   objs (snd (snd (await_suspend inline_cls (create (ByRef 3)) (Caller 1)
          (world0\<lparr>objs := (objs world0)(3 \<mapsto> 9)\<rparr>)))) 3 = Some 10"
proof -
  have g: "snd (get_awaiter free_conversion) = Reference 3"
    by (simp add: get_awaiter_def free_conversion_def)
  have o0: "objs world0 3 = Some 0"
    by (simp add: world0_def)
  have o9: "objs (world0\<lparr>objs := (objs world0)(3 \<mapsto> 9)\<rparr>) 3 = Some 9"
    by simp
  from lvalue_reference_awaiter_not_copied
         [OF g, of None world0 world0 0 inline_cls "Caller 1"]
    lvalue_reference_awaiter_not_copied
      [OF g, of None world0 "world0\<lparr>objs := (objs world0)(3 \<mapsto> 9)\<rparr>" 9 inline_cls "Caller 1"]
    g o0 o9
  show ?thesis
    by (simp add: adapter_defs inline_cls_def world0_def free_conversion_def)
qed

text \<open>
  C6, as stated, fails for rvalue references. A conversion that yields \<open>T&&\<close> selects the
  \<open>std::reference_wrapper\<close> as well, but no adapter is built: neither
  \<open>createAwaitWrapper\<close> is well-formed for that type.
\<close>

theorem rvalue_reference_builds_no_adapter:
  "snd (get_awaiter rvalue_conversion) = RvalueReference 3 \<and>
   createAwaitWrapper rvalue_conversion = None \<and>
   createAwaitWrapper_with rvalue_conversion (Some 7) world0 = None"
  by (simp add: get_awaiter_def createAwaitWrapper_def createAwaitWrapper_with_def
      rvalue_conversion_def)

subsection \<open>Lifetime\<close>

text \<open>
  C7. An adapter that is constructed and destroyed without being suspended on: without an
  executor the world is untouched; with an executor the frame that \<open>create\<close> allocated is
  destroyed again, the trace is what it was (no \<open>Executor::add\<close>, no resumption), and in both
  cases the awaiter held by value is released.
\<close>

theorem unused_adapter_released_without_add:
  "destructor (create a) s = (Ok (released (Some a)), s) \<and>
   (\<forall>w s1. create_with a executor s = (w, s1) \<longrightarrow>
      destructor w s1 =
        (Ok (released (Some a)), s\<lparr>frames := (frames s)(fresh s := None), fresh := Suc (fresh s)\<rparr>) \<and>
      trace (snd (destructor w s1)) = trace s \<and>
      frames (snd (destructor w s1)) (fresh s) = None)"
  by (auto simp: adapter_defs Let_def)

theorem unused_adapter_released_without_add_witness:
  "(case create_with (ByValue 5) (Some 7) world0 of
      (w, s1) \<Rightarrow>
        frames s1 0 \<noteq> None \<and>
        fst (destructor w s1) = Ok [5] \<and>
        trace (snd (destructor w s1)) = [] \<and>
        frames (snd (destructor w s1)) = Map.empty)"
  using unused_adapter_released_without_add [of "ByValue 5" world0 "Some 7"]
  by (simp add: adapter_defs world0_def)

text \<open>
  C8. After \<open>AwaitWrapper(AwaitWrapper&& other)\<close> the new adapter has the frame pointer and
  the awaiter of the source, the source has neither, and destroying the source changes nothing in
  the world and releases no awaiter. (That the class cannot be copied is a fact of its
  declaration: the model has no copy operation.)
\<close>

theorem moved_from_owns_nothing:
  "m_promise (fst (move_ctor src)) = m_promise src \<and>
   m_awaitable (fst (move_ctor src)) = m_awaitable src \<and>
   m_promise (snd (move_ctor src)) = None \<and>
   m_awaitable (snd (move_ctor src)) = None \<and>
   destructor (snd (move_ctor src)) s = (Ok [], s)"
  by (simp add: move_ctor_def exchange_def Optional_move_def destructor_def)

theorem moved_from_owns_nothing_witness:
  "(case create_with (ByValue 5) (Some 7) world0 of
      (w, s1) \<Rightarrow>
        (case move_ctor w of
           (dst, src) \<Rightarrow>
             destructor src s1 = (Ok [], s1) \<and>
             frames s1 0 \<noteq> None \<and>
             fst (destructor dst (snd (destructor src s1))) = Ok [5] \<and>
             frames (snd (destructor dst (snd (destructor src s1)))) 0 = None))"
  using moved_from_owns_nothing [of "fst (create_with (ByValue 5) (Some 7) world0)"
              "snd (create_with (ByValue 5) (Some 7) world0)"]
  by (simp add: adapter_defs world0_def)

subsection \<open>Choosing the awaiter\<close>




text \<open>
  C10. The order of the branches of \<open>get_awaiter\<close>: a member \<open>operator co_await\<close> wins
  whenever it is invocable, a free one is used only when no member is, and with neither the
  result is a reference to the awaitable itself, with no conversion invoked.
\<close>

theorem get_awaiter_priority:
  "(\<forall>r. member_operator_co_await x = Some r \<longrightarrow> get_awaiter x = ([MemberCoAwait], r)) \<and>
   (\<forall>r. member_operator_co_await x = None \<and> non_member_operator_co_await x = Some r \<longrightarrow>
        get_awaiter x = ([FreeCoAwait], r)) \<and>
   (member_operator_co_await x = None \<and> non_member_operator_co_await x = None \<longrightarrow>
        get_awaiter x = ([], Reference (self x)))"
  by (simp add: get_awaiter_def)

theorem get_awaiter_priority_witness:
  "has_member_operator_co_await_v both_conversions \<and>
   has_non_member_operator_co_await_v both_conversions \<and>
   get_awaiter both_conversions = ([MemberCoAwait], Prvalue 1) \<and>
   \<not> has_member_operator_co_await_v no_conversion \<and>
   \<not> has_non_member_operator_co_await_v no_conversion \<and>
   get_awaiter no_conversion = ([], Reference 3) \<and>
   get_awaiter free_conversion = ([FreeCoAwait], Reference 3)"
  using get_awaiter_priority [of both_conversions] get_awaiter_priority [of no_conversion] get_awaiter_priority [of free_conversion]
  by (simp add: both_conversions_def no_conversion_def free_conversion_def
      has_member_operator_co_await_v_def has_non_member_operator_co_await_v_def)

end
